theory Spec2Isabelle
  imports Main "HOL-Library.Word"
begin

unbundle bit_operations_syntax

section \<open>The LD2450 radar sketch: frame synchronizer, decoder and trail recorder\<close>

text \<open>
  A shallow embedding of \<^verbatim>\<open>mmwave_with_webserver.ino\<close>: the byte intake
  (\<^verbatim>\<open>pushBytes\<close>), the frame synchronizer and decoder (\<^verbatim>\<open>parseFrames\<close>), the
  trail recorder (\<^verbatim>\<open>sampleTrails\<close>) and the part of \<^verbatim>\<open>page\<close> that reads the
  trails back.  The globals of the sketch are the fields of one record that every
  operation takes and returns.
\<close>

subsection \<open>Machine types\<close>

type_synonym u8 = "8 word"
type_synonym u16 = "16 word"
type_synonym i16 = "16 word"
type_synonym u32 = "32 word"

text \<open>
  An \<^verbatim>\<open>int16_t\<close> is a 16-bit word read with \<^const>\<open>sint\<close>.  On the ESP32
  \<^verbatim>\<open>int\<close> and \<^verbatim>\<open>unsigned long\<close> have 32 bits.  The operands of the decoder's
  arithmetic are \<^verbatim>\<open>uint16_t\<close> values promoted to \<^verbatim>\<open>int\<close>; their differences and
  negations lie between -65535 and 65535, so the 32-bit arithmetic never overflows and is
  written on \<^typ>\<open>int\<close>.  The narrowing cast \<^verbatim>\<open>(int16_t)\<close> keeps the low 16 bits.
\<close>

definition to_int16 :: "int \<Rightarrow> i16" where
  "to_int16 i = word_of_int i"

text \<open>Reading a C array at an \<^verbatim>\<open>int\<close> index.\<close>

definition idx :: "'a list \<Rightarrow> int \<Rightarrow> 'a" where
  "idx a i = a ! nat i"

text \<open>The remainder \<^verbatim>\<open>a % b\<close> of C, which truncates towards zero.\<close>

definition c_rem :: "int \<Rightarrow> int \<Rightarrow> int" where
  "c_rem a b = a - b * (sgn a * sgn b * (\<bar>a\<bar> div \<bar>b\<bar>))"

subsection \<open>Configuration and protocol constants\<close>

definition TRAIL_LEN :: int where
  "TRAIL_LEN = 100"

definition BUF_SIZE :: int where
  "BUF_SIZE = 128"

definition HDR :: "u8 list" where
  "HDR = [0xAA, 0xFF, 0x03, 0x00]"

definition TAIL :: "u8 list" where
  "TAIL = [0x55, 0xCC]"

subsection \<open>State\<close>

text \<open>\<^verbatim>\<open>struct Target{bool v; int16_t x,y,vz; uint32_t seen;}\<close>\<close>

record Target =
  Tv :: bool
  Tx :: i16
  Ty :: i16
  Tvz :: i16
  Tseen :: u32

text \<open>\<^verbatim>\<open>struct Trail{int16_t X[TRAIL_LEN],Y[TRAIL_LEN];int head=0,n=0;unsigned long last=0;}\<close>\<close>

record Trail =
  trX :: "i16 list"
  trY :: "i16 list"
  trHead :: int
  trN :: int
  trLast :: u32

text \<open>
  The globals.  \<open>buf\<close> is the whole 128-byte array and \<open>blen\<close> the \<^verbatim>\<open>int\<close> beside
  it.  \<open>rx\<close> is the receive queue of \<^verbatim>\<open>Serial1\<close>: \<^verbatim>\<open>available()\<close> says whether it
  is non-empty and \<^verbatim>\<open>read()\<close> takes its first byte.  \<open>ticks\<close> counts the calls of
  \<^verbatim>\<open>millis()\<close> made so far; the clock itself is a parameter \<open>millis\<close> giving the value
  returned by each call in turn.
\<close>

record state =
  T :: "Target list"
  tr :: "Trail list"
  framesSeen :: u32
  framesOK :: u32
  errs :: u32
  buf :: "u8 list"
  blen :: int
  rx :: "u8 list"
  ticks :: nat

text \<open>The state at start-up: statics are zero-initialised.\<close>

definition init :: state where
  "init = \<lparr>T = replicate 3 \<lparr>Tv = False, Tx = 0, Ty = 0, Tvz = 0, Tseen = 0\<rparr>,
           tr = replicate 3 \<lparr>trX = replicate 100 0, trY = replicate 100 0,
                              trHead = 0, trN = 0, trLast = 0\<rparr>,
           framesSeen = 0, framesOK = 0, errs = 0,
           buf = replicate 128 0, blen = 0, rx = [], ticks = 0\<rparr>"

text \<open>The UART driver queues the bytes that arrive on the line.\<close>

definition arrive :: "u8 list \<Rightarrow> state \<Rightarrow> state" where
  "arrive bs s = s\<lparr>rx := rx s @ bs\<rparr>"

subsection \<open>Byte intake\<close>

text \<open>
  \<^verbatim>\<open>while (Serial1.available() && blen < (int)sizeof(buf)) buf[blen++] = (uint8_t)Serial1.read();\<close>
\<close>

function pushBytes :: "state \<Rightarrow> state" where
  "pushBytes s =
     (if rx s \<noteq> [] \<and> blen s < BUF_SIZE
      then pushBytes (s\<lparr>buf := (buf s)[nat (blen s) := hd (rx s)],
                         blen := blen s + 1,
                         rx := tl (rx s)\<rparr>)
      else s)"
  by pat_completeness auto
termination
  by (relation "measure (\<lambda>s. length (rx s))") auto

declare pushBytes.simps [simp del]

subsection \<open>Field decoding\<close>

text \<open>\<^verbatim>\<open>(uint16_t)p[0] | ((uint16_t)p[1]<<8)\<close>, for \<open>p = &f[b]\<close>.\<close>

definition le_u16 :: "u8 list \<Rightarrow> nat \<Rightarrow> u16" where
  "le_u16 f b = ucast (f ! b) OR push_bit 8 (ucast (f ! (b + 1)))"

definition decodeX :: "u16 \<Rightarrow> i16" where
  "decodeX xr = (if xr AND 0x8000 \<noteq> 0 then to_int16 (uint xr - 32768)
                 else to_int16 (- uint xr))"

definition decodeY :: "u16 \<Rightarrow> i16" where
  "decodeY yr = to_int16 (uint yr - 32768)"

definition decodeV :: "u16 \<Rightarrow> i16" where
  "decodeV vr = (if vr AND 0x8000 \<noteq> 0 then to_int16 (- (uint vr - 32768))
                 else to_int16 (uint vr))"

text \<open>The record written to \<^verbatim>\<open>T[k]\<close> from one raw triple, stamped with the clock.\<close>

definition decodeRaw :: "u16 \<Rightarrow> u16 \<Rightarrow> u16 \<Rightarrow> u32 \<Rightarrow> Target" where
  "decodeRaw xr yr vr now =
     (let x = decodeX xr; y = decodeY yr; v = decodeV vr;
          nz = (\<not> (xr = 0 \<and> yr = 0 \<and> vr = 0))
      in \<lparr>Tv = nz, Tx = x, Ty = y, Tvz = v, Tseen = now\<rparr>)"

text \<open>One turn of the loop \<^verbatim>\<open>for(int k=0;k<3;k++)\<close> over the sub-records of frame \<open>f\<close>.\<close>

definition decodeSlot :: "(nat \<Rightarrow> u32) \<Rightarrow> u8 list \<Rightarrow> nat \<Rightarrow> state \<Rightarrow> state" where
  "decodeSlot millis f k s =
     (let b = 4 + k * 8;
          xr = le_u16 f (b + 0); yr = le_u16 f (b + 2); vr = le_u16 f (b + 4)
      in s\<lparr>T := (T s)[k := decodeRaw xr yr vr (millis (ticks s))],
            ticks := Suc (ticks s)\<rparr>)"

text \<open>
  What \<^verbatim>\<open>parseFrames\<close> does with an extracted frame \<open>f\<close>, from \<^verbatim>\<open>framesSeen++\<close> to
  the end of the loop body.
\<close>

definition handleFrame :: "(nat \<Rightarrow> u32) \<Rightarrow> u8 list \<Rightarrow> state \<Rightarrow> state" where
  "handleFrame millis f s =
     (let s1 = s\<lparr>framesSeen := framesSeen s + 1\<rparr>
      in if f ! 28 \<noteq> TAIL ! 0 \<or> f ! 29 \<noteq> TAIL ! 1
         then s1\<lparr>errs := errs s1 + 1\<rparr>
         else (let s2 = fold (decodeSlot millis f) [0, 1, 2] s1
               in s2\<lparr>framesOK := framesOK s2 + 1\<rparr>))"

subsection \<open>Frame synchronizer\<close>

definition hdrAt :: "u8 list \<Rightarrow> int \<Rightarrow> bool" where
  "hdrAt b i = (idx b i = HDR ! 0 \<and> idx b (i + 1) = HDR ! 1 \<and>
                idx b (i + 2) = HDR ! 2 \<and> idx b (i + 3) = HDR ! 3)"

text \<open>
  \<^verbatim>\<open>int h = -1; for(int i=0;i<=blen-30;i++){ if(...){ h=i; break; } }\<close>, as the value
  of \<open>h\<close> when the scan is at \<open>i\<close>.
\<close>

function findHdr :: "u8 list \<Rightarrow> int \<Rightarrow> int \<Rightarrow> int" where
  "findHdr b n i =
     (if i \<le> n - 30 then (if hdrAt b i then i else findHdr b n (i + 1)) else - 1)"
  by pat_completeness auto
termination
  by (relation "measure (\<lambda>(b, n, i). nat (n - 29 - i))") auto

declare findHdr.simps [simp del]

text \<open>\<^verbatim>\<open>memmove(buf, buf+src, cnt)\<close> on the array \<open>b\<close>.\<close>

definition memmove_front :: "u8 list \<Rightarrow> int \<Rightarrow> int \<Rightarrow> u8 list" where
  "memmove_front b src cnt = take (nat cnt) (drop (nat src) b) @ drop (nat cnt) b"

text \<open>\<^verbatim>\<open>memcpy(f, buf+h, 30)\<close>\<close>

definition memcpy_frame :: "u8 list \<Rightarrow> int \<Rightarrow> u8 list" where
  "memcpy_frame b h = take 30 (drop (nat h) b)"

function parseFrames :: "(nat \<Rightarrow> u32) \<Rightarrow> state \<Rightarrow> state" where
  "parseFrames millis s =
     (if blen s < 30 then s
      else
        let h = findHdr (buf s) (blen s) 0 in
        if h < 0 then
          (let drop_n = blen s - 29
           in if drop_n > 0
              then s\<lparr>buf := memmove_front (buf s) drop_n (blen s - drop_n),
                     blen := blen s - drop_n\<rparr>
              else s)
        else if h + 30 > blen s then
          (if h > 0
           then s\<lparr>buf := memmove_front (buf s) h (blen s - h), blen := blen s - h\<rparr>
           else s)
        else
          (let f = memcpy_frame (buf s) h;
               take_n = h + 30;
               s1 = s\<lparr>buf := memmove_front (buf s) take_n (blen s - take_n),
                       blen := blen s - take_n\<rparr>
           in parseFrames millis (handleFrame millis f s1)))"
  by pat_completeness auto
termination
  by (relation "measure (\<lambda>(millis, s). nat (blen s))")
     (auto simp: handleFrame_def decodeSlot_def Let_def)

declare parseFrames.simps [simp del]

subsection \<open>Trail recorder\<close>

text \<open>The body of the loop of \<^verbatim>\<open>sampleTrails\<close> for one slot, on its target and trail.\<close>

definition sampleSlot :: "u32 \<Rightarrow> Target \<Rightarrow> Trail \<Rightarrow> Trail" where
  "sampleSlot now t r =
     (if now - trLast r \<ge> 120
      then r\<lparr>trLast := now,
             trX := (trX r)[nat (trHead r) := Tx t],
             trY := (trY r)[nat (trHead r) := Ty t],
             trHead := c_rem (trHead r + 1) TRAIL_LEN,
             trN := (if trN r < TRAIL_LEN then trN r + 1 else trN r)\<rparr>
      else r)"

definition sampleTrails :: "(nat \<Rightarrow> u32) \<Rightarrow> state \<Rightarrow> state" where
  "sampleTrails millis s =
     (let now = millis (ticks s);
          s0 = s\<lparr>ticks := Suc (ticks s)\<rparr>
      in fold (\<lambda>k s'. s'\<lparr>tr := (tr s')[k := sampleSlot now (T s' ! k) (tr s' ! k)]\<rparr>)
              [0, 1, 2] s0)"

text \<open>
  The positions that \<^verbatim>\<open>page\<close> writes into \<^verbatim>\<open>trX\<close> and \<^verbatim>\<open>trY\<close> for one trail:
  \<^verbatim>\<open>for(int j=0;j<tr[i].n;j++){ int idx=(tr[i].head+j)%TRAIL_LEN; ... X[idx] ... Y[idx] }\<close>
\<close>

definition pageTrail :: "Trail \<Rightarrow> (i16 \<times> i16) list" where
  "pageTrail r =
     map (\<lambda>j. let ix = c_rem (trHead r + j) TRAIL_LEN in (idx (trX r) ix, idx (trY r) ix))
         [0 .. trN r - 1]"

subsection \<open>The main loop\<close>

text \<open>
  The core of \<^verbatim>\<open>loop\<close>: \<^verbatim>\<open>pushBytes(); parseFrames(); sampleTrails();\<close>.  Between two
  turns the line delivers bytes.  An \<open>event\<close> is one of these steps; a run is any sequence
  of them.
\<close>

datatype event = Arrive "u8 list" | PushBytes | ParseFrames | SampleTrails

fun step :: "(nat \<Rightarrow> u32) \<Rightarrow> event \<Rightarrow> state \<Rightarrow> state" where
  "step millis (Arrive bs) s = arrive bs s"
| "step millis PushBytes s = pushBytes s"
| "step millis ParseFrames s = parseFrames millis s"
| "step millis SampleTrails s = sampleTrails millis s"

definition run :: "(nat \<Rightarrow> u32) \<Rightarrow> event list \<Rightarrow> state \<Rightarrow> state" where
  "run millis es s = fold (step millis) es s"

subsection \<open>Notions used to state the properties\<close>

text \<open>
  The buffer is well formed when the array has its 128 bytes and \<open>blen\<close> lies between 0
  and the capacity.  The bytes it holds are \<^verbatim>\<open>buf[0..blen)\<close>; the bytes of the array
  from \<open>blen\<close> on are never read.
\<close>

definition buf_ok :: "state \<Rightarrow> bool" where
  "buf_ok s = (length (buf s) = 128 \<and> 0 \<le> blen s \<and> blen s \<le> BUF_SIZE)"

definition pending :: "state \<Rightarrow> u8 list" where
  "pending s = take (nat (blen s)) (buf s)"

text \<open>The number of bytes one call of \<^verbatim>\<open>pushBytes\<close> moves from the queue to the buffer.\<close>

definition intake :: "state \<Rightarrow> nat" where
  "intake s = min (length (rx s)) (nat (BUF_SIZE - blen s))"

text \<open>A valid frame of the wire format: 30 bytes, the header first, the tail last.\<close>

definition valid_frame :: "u8 list \<Rightarrow> bool" where
  "valid_frame f = (length f = 30 \<and> take 4 f = HDR \<and> f ! 28 = TAIL ! 0 \<and> f ! 29 = TAIL ! 1)"

text \<open>
  A trail is well formed when its arrays have their 100 entries, \<open>head\<close> is an index of
  them, the count is at most 100, and \<open>head\<close> equals the count until the trail is full
  (as it is from start-up on).  \<open>stored\<close> lists the entries of a trail in their logical
  order: oldest to newest, starting at index \<open>(head - count) mod capacity\<close>.
\<close>

definition trail_ok :: "Trail \<Rightarrow> bool" where
  "trail_ok r = (length (trX r) = 100 \<and> length (trY r) = 100 \<and>
                 0 \<le> trHead r \<and> trHead r < TRAIL_LEN \<and> 0 \<le> trN r \<and> trN r \<le> TRAIL_LEN \<and>
                 (trN r = TRAIL_LEN \<or> trHead r = trN r))"

definition stored :: "Trail \<Rightarrow> (i16 \<times> i16) list" where
  "stored r =
     map (\<lambda>j. let ix = (trHead r - trN r + j) mod TRAIL_LEN in (idx (trX r) ix, idx (trY r) ix))
         [0 .. trN r - 1]"

text \<open>
  Test frames.  \<open>frame_xy a b\<close> is a valid frame whose first sub-record has
  \<open>x_raw = 0x8000 + a\<close> and \<open>y_raw = 0x8000 + b\<close> and whose other fields are zero;
  \<open>bad_frame\<close> has a wrong last byte.
\<close>

definition frame_xy :: "u8 \<Rightarrow> u8 \<Rightarrow> u8 list" where
  "frame_xy a b = HDR @ [a, 0x80, b, 0x80] @ replicate 20 0 @ TAIL"

definition bad_frame :: "u8 list" where
  "bad_frame = HDR @ replicate 24 0 @ [0x55, 0xCD]"

section \<open>Properties\<close>

subsection \<open>Field decoding\<close>

lemma high_bit_bit: "(w AND 0x8000 \<noteq> 0) = bit w 15" for w :: u16
proof -
  have "(0x8000 :: u16) = 2 ^ 15" by simp
  then show ?thesis by (simp only: and_exp_eq_0_iff_not_bit) simp
qed

lemma bit15_uint: "bit w 15 = (32768 \<le> uint w)" for w :: u16
proof -
  have lt: "uint w < 65536" using uint_bounded [of w] by simp
  have "bit w 15 = bit (uint w) 15" by (simp add: bit_uint_iff)
  also have "\<dots> = odd (uint w div 2 ^ 15)" by (rule bit_iff_odd)
  also have "\<dots> = (32768 \<le> uint w)"
  proof (cases "32768 \<le> uint w")
    case True
    with lt have "uint w div 2 ^ 15 = 1" by simp
    with True show ?thesis by simp
  next
    case False
    then have "uint w div 2 ^ 15 = 0" by (simp add: div_pos_pos_trivial)
    with False show ?thesis by simp
  qed
  finally show ?thesis .
qed

lemma high_bit_uint: "(w AND 0x8000 \<noteq> 0) = (32768 \<le> uint w)" for w :: u16
  by (simp only: high_bit_bit bit15_uint)

lemma uint_u16_lt: "uint w < 65536" for w :: u16
  using uint_bounded [of w] by simp

lemma sint_to_int16: "- 32768 \<le> i \<Longrightarrow> i \<le> 32767 \<Longrightarrow> sint (to_int16 i) = i"
  by (simp add: to_int16_def sint_sbintrunc' signed_take_bit_int_eq_self)

lemma sint_decodeX:
  "sint (decodeX xr) = (if bit xr 15 then uint xr - 32768 else - uint xr)"
proof -
  have b: "0 \<le> uint xr" "uint xr < 65536" by (simp_all add: uint_u16_lt)
  show ?thesis
  proof (cases "bit xr 15")
    case True
    then have "32768 \<le> uint xr" by (simp add: bit15_uint)
    with b have "sint (to_int16 (uint xr - 32768)) = uint xr - 32768"
      by (intro sint_to_int16) linarith+
    with True show ?thesis by (simp add: decodeX_def high_bit_bit)
  next
    case False
    then have "uint xr < 32768" by (simp add: bit15_uint)
    with b have "sint (to_int16 (- uint xr)) = - uint xr"
      by (intro sint_to_int16) linarith+
    with False show ?thesis by (simp add: decodeX_def high_bit_bit)
  qed
qed

lemma sint_decodeY: "sint (decodeY yr) = uint yr - 32768"
proof -
  have b: "0 \<le> uint yr" "uint yr < 65536" by (simp_all add: uint_u16_lt)
  then have "sint (to_int16 (uint yr - 32768)) = uint yr - 32768"
    by (intro sint_to_int16) linarith+
  then show ?thesis by (simp add: decodeY_def)
qed

lemma sint_decodeV:
  "sint (decodeV vr) = (if bit vr 15 then - (uint vr - 32768) else uint vr)"
proof -
  have b: "0 \<le> uint vr" "uint vr < 65536" by (simp_all add: uint_u16_lt)
  show ?thesis
  proof (cases "bit vr 15")
    case True
    then have "32768 \<le> uint vr" by (simp add: bit15_uint)
    with b have "sint (to_int16 (- (uint vr - 32768))) = - (uint vr - 32768)"
      by (intro sint_to_int16) linarith+
    with True show ?thesis by (simp add: decodeV_def high_bit_bit)
  next
    case False
    then have "uint vr < 32768" by (simp add: bit15_uint)
    with b have "sint (to_int16 (uint vr)) = uint vr"
      by (intro sint_to_int16) linarith+
    with False show ?thesis by (simp add: decodeV_def high_bit_bit)
  qed
qed

lemma decodeX_range: "- 32767 \<le> sint (decodeX xr) \<and> sint (decodeX xr) \<le> 32767"
proof -
  have b: "0 \<le> uint xr" "uint xr < 65536" by (simp_all add: uint_u16_lt)
  show ?thesis
  proof (cases "bit xr 15")
    case True
    then have "32768 \<le> uint xr" by (simp add: bit15_uint)
    with b True show ?thesis unfolding sint_decodeX by (simp only: if_True) linarith
  next
    case False
    then have "uint xr < 32768" by (simp add: bit15_uint)
    with b False show ?thesis unfolding sint_decodeX by (simp only: if_False) linarith
  qed
qed

lemma decodeY_range: "- 32768 \<le> sint (decodeY yr) \<and> sint (decodeY yr) \<le> 32767"
proof -
  have b: "0 \<le> uint yr" "uint yr < 65536" by (simp_all add: uint_u16_lt)
  then show ?thesis unfolding sint_decodeY by linarith
qed

lemma decodeV_range: "- 32767 \<le> sint (decodeV vr) \<and> sint (decodeV vr) \<le> 32767"
proof -
  have b: "0 \<le> uint vr" "uint vr < 65536" by (simp_all add: uint_u16_lt)
  show ?thesis
  proof (cases "bit vr 15")
    case True
    then have "32768 \<le> uint vr" by (simp add: bit15_uint)
    with b True show ?thesis unfolding sint_decodeV by (simp only: if_True) linarith
  next
    case False
    then have "uint vr < 32768" by (simp add: bit15_uint)
    with b False show ?thesis unfolding sint_decodeV by (simp only: if_False) linarith
  qed
qed

text \<open>
  C1.  For every raw triple \<open>(xr, yr, vr)\<close> of a sub-record the decoder writes: an
  \<open>x\<close> equal to \<open>xr - 32768\<close> when bit 15 of \<open>xr\<close> is set and to \<open>- xr\<close> when it is
  clear; a \<open>y\<close> equal to \<open>yr - 32768\<close>; a \<open>v\<close> equal to \<open>- (vr - 32768)\<close> when bit 15 of
  \<open>vr\<close> is set and to \<open>vr\<close> when it is clear; and a presence flag that is false exactly
  when the three raw values are all zero.
\<close>

theorem decodeRaw_fields:
  "sint (Tx (decodeRaw xr yr vr now)) = (if bit xr 15 then uint xr - 32768 else - uint xr) \<and>
   sint (Ty (decodeRaw xr yr vr now)) = uint yr - 32768 \<and>
   sint (Tvz (decodeRaw xr yr vr now)) = (if bit vr 15 then - (uint vr - 32768) else uint vr) \<and>
   (Tv (decodeRaw xr yr vr now) = False) = (xr = 0 \<and> yr = 0 \<and> vr = 0)"
  by (auto simp add: decodeRaw_def Let_def sint_decodeX sint_decodeY sint_decodeV)

theorem decodeRaw_fields_witness:
  "sint (Tx (decodeRaw 0x8005 0x8010 0x0007 9)) = 5 \<and>
   sint (Ty (decodeRaw 0x8005 0x8010 0x0007 9)) = 16 \<and>
   sint (Tvz (decodeRaw 0x8005 0x8010 0x0007 9)) = 7 \<and>
   Tv (decodeRaw 0x8005 0x8010 0x0007 9)"
  using decodeRaw_fields [of "0x8005" "0x8010" "0x0007" 9] by (simp add: bit15_uint)

text \<open>
  C9, as the spec words it: \<open>xr = 0x8005\<close> would decode to \<open>5 - 32768 = -32763\<close>.  The
  decoder subtracts 32768 from the whole raw value 32773, not from its low bits.
\<close>

theorem decodeX_0x8005_counterexample:
  "sint (decodeX 0x8005) \<noteq> 5 - 32768"
  by (simp add: decodeX_def to_int16_def)

text \<open>
  C9, amended.  \<open>xr = 0x8005\<close> decodes to \<open>x = 32773 - 32768 = 5\<close>, \<open>xr = 0x8000\<close> to
  \<open>x = 0\<close> and \<open>xr = 0x0005\<close> to \<open>x = -5\<close>.
\<close>

theorem decodeX_examples:
  "sint (decodeX 0x8005) = 5 \<and> sint (decodeX 0x8000) = 0 \<and> sint (decodeX 0x0005) = - 5"
  by (simp add: decodeX_def to_int16_def)

theorem decodeX_examples_witness:
  "sint (decodeX 0x8005) = 5"
  using decodeX_examples by simp

text \<open>
  C10.  For every raw triple the decoded \<open>x\<close> and \<open>v\<close> lie in \<open>[-32767, 32767]\<close> and
  \<open>y\<close> in \<open>[-32768, 32767]\<close>, and each narrowing cast to \<^verbatim>\<open>int16_t\<close> returns the
  value of the \<^verbatim>\<open>int\<close> expression under it: none wraps.
\<close>

theorem decode_in_int16_range:
  "(- 32767 \<le> sint (decodeX xr) \<and> sint (decodeX xr) \<le> 32767) \<and>
   (- 32768 \<le> sint (decodeY yr) \<and> sint (decodeY yr) \<le> 32767) \<and>
   (- 32767 \<le> sint (decodeV vr) \<and> sint (decodeV vr) \<le> 32767) \<and>
   sint (decodeX xr) = (if xr AND 0x8000 \<noteq> 0 then uint xr - 32768 else - uint xr) \<and>
   sint (decodeY yr) = uint yr - 32768 \<and>
   sint (decodeV vr) = (if vr AND 0x8000 \<noteq> 0 then - (uint vr - 32768) else uint vr)"
  using decodeX_range [of xr] decodeY_range [of yr] decodeV_range [of vr]
  by (simp add: sint_decodeX sint_decodeY sint_decodeV high_bit_bit)

theorem decode_in_int16_range_witness:
  "sint (decodeX 0x0005) = - 5 \<and> sint (decodeY 0) = - 32768 \<and> sint (decodeV 0xFFFF) = - 32767"
  using decode_in_int16_range [of "0x0005" 0 "0xFFFF"] by simp

subsection \<open>Byte intake\<close>

text \<open>
  One call of \<^verbatim>\<open>pushBytes\<close> in closed form: the first \<open>intake s\<close> bytes of the queue
  are written at \<open>buf[blen..]\<close>; nothing already in the buffer moves.
\<close>

lemma pushBytes_eq:
  "buf_ok s \<Longrightarrow>
   pushBytes s = s\<lparr>buf := take (nat (blen s)) (buf s) @ take (intake s) (rx s) @
                          drop (nat (blen s) + intake s) (buf s),
                   blen := blen s + int (intake s),
                   rx := drop (intake s) (rx s)\<rparr>"
proof (induction s rule: pushBytes.induct)
  case (1 s)
  show ?case
  proof (cases "rx s \<noteq> [] \<and> blen s < BUF_SIZE")
    case False
    then have "intake s = 0" by (auto simp: intake_def)
    with False show ?thesis by (subst pushBytes.simps) auto
  next
    case True
    define s' where
      "s' = s\<lparr>buf := (buf s)[nat (blen s) := hd (rx s)], blen := blen s + 1, rx := tl (rx s)\<rparr>"
    from True 1(2) have ok': "buf_ok s'" by (simp add: buf_ok_def s'_def BUF_SIZE_def)
    from True obtain x xs where rx: "rx s = x # xs" by (cases "rx s") auto
    from True 1(2) have n: "nat (blen s) < length (buf s)" "0 \<le> blen s"
      by (auto simp add: buf_ok_def BUF_SIZE_def)
    have m: "intake s = Suc (intake s')"
      using True 1(2) rx by (auto simp: intake_def s'_def buf_ok_def BUF_SIZE_def min_def)
    have IH: "pushBytes s' =
                s'\<lparr>buf := take (nat (blen s')) (buf s') @ take (intake s') (rx s') @
                            drop (nat (blen s') + intake s') (buf s'),
                   blen := blen s' + int (intake s'),
                   rx := drop (intake s') (rx s')\<rparr>"
      using 1(1) [OF True] ok' unfolding s'_def by blast
    have b1: "nat (blen s') = Suc (nat (blen s))" using n by (simp add: s'_def nat_add_distrib)
    have t: "take (nat (blen s')) (buf s') = take (nat (blen s)) (buf s) @ [x]"
      using n rx unfolding b1 by (simp add: s'_def take_Suc_conv_app_nth)
    have d: "drop (nat (blen s') + intake s') (buf s') = drop (nat (blen s) + intake s) (buf s)"
      unfolding b1 m by (simp add: s'_def)
    have "pushBytes s = pushBytes s'"
      using True by (subst pushBytes.simps) (simp add: s'_def)
    also note IH
    finally show ?thesis
      unfolding t d using rx m by (simp add: s'_def)
  qed
qed

lemma pushBytes_idle: "rx s = [] \<Longrightarrow> pushBytes s = s"
  by (subst pushBytes.simps) simp

lemma arrive_Nil [simp]: "arrive [] s = s"
  by (simp add: arrive_def)

lemma buf_ok_init: "buf_ok init"
  by (simp add: buf_ok_def init_def BUF_SIZE_def)

lemma buf_ok_arrive [simp]: "buf_ok (arrive bs s) = buf_ok s"
  by (simp add: buf_ok_def arrive_def)

lemma buf_ok_pushBytes: "buf_ok s \<Longrightarrow> buf_ok (pushBytes s)"
proof -
  assume ok: "buf_ok s"
  then have "nat (blen s) + intake s \<le> 128" "nat (blen s) \<le> 128" "intake s \<le> length (rx s)"
    unfolding buf_ok_def intake_def BUF_SIZE_def by auto
  with ok show ?thesis
    by (subst pushBytes_eq) (auto simp add: buf_ok_def BUF_SIZE_def intake_def)
qed

text \<open>Bytes that arrive while buffer and queue are empty, and fit, are all taken.\<close>

lemma pushBytes_fresh:
  assumes "buf_ok s" and "blen s = 0" and "rx s = []" and "length bs \<le> 128"
  shows "pushBytes (arrive bs s) =
         s\<lparr>buf := bs @ drop (length bs) (buf s), blen := int (length bs)\<rparr>"
proof -
  have ok: "buf_ok (arrive bs s)" using assms(1) by simp
  have i: "intake (arrive bs s) = length bs"
    using assms by (simp add: intake_def arrive_def BUF_SIZE_def)
  show ?thesis
    unfolding pushBytes_eq [OF ok] i using assms(2,3)
    by (simp add: arrive_def)
qed

text \<open>
  C6, as the spec words it: when the intake would exceed the capacity, the oldest buffered
  bytes make room for the newest incoming ones.  Here the buffer holds 29 bytes \<open>1\<close> and
  the queue 99 bytes \<open>2\<close> followed by a byte \<open>3\<close>, 129 bytes in all.  After the intake
  the 29 oldest bytes are still at the front of the buffer, and the newest byte \<open>3\<close> is not
  in the buffer: it is still in the queue.
\<close>

theorem pushBytes_overflow_counterexample:
  "3 \<notin> set (pending (pushBytes (init\<lparr>buf := replicate 29 1 @ replicate 99 0, blen := 29,
                                        rx := replicate 99 2 @ [3]\<rparr>))) \<and>
   take 29 (pending (pushBytes (init\<lparr>buf := replicate 29 1 @ replicate 99 0, blen := 29,
                                      rx := replicate 99 2 @ [3]\<rparr>))) = replicate 29 1 \<and>
   rx (pushBytes (init\<lparr>buf := replicate 29 1 @ replicate 99 0, blen := 29,
                       rx := replicate 99 2 @ [3]\<rparr>)) = [3]"
proof -
  define s where "s = init\<lparr>buf := replicate 29 1 @ replicate 99 0, blen := 29,
                            rx := replicate 99 2 @ [3]\<rparr>"
  have ok: "buf_ok s" by (simp add: s_def buf_ok_def BUF_SIZE_def)
  have i: "intake s = 99" by (simp add: s_def intake_def BUF_SIZE_def)
  have "pushBytes s = s\<lparr>buf := replicate 29 1 @ replicate 99 2, blen := 128, rx := [3]\<rparr>"
    unfolding pushBytes_eq [OF ok] i by (simp add: s_def)
  then show ?thesis unfolding s_def [symmetric] by (simp add: pending_def)
qed

text \<open>
  C6, amended.  When the bytes waiting in the queue would take the buffer past its 128
  bytes, every byte already buffered is kept, the incoming bytes are appended in order
  until the buffer holds exactly 128, and the newest incoming bytes are not taken: they
  stay in the serial queue.
\<close>

theorem pushBytes_overflow_keeps_oldest:
  assumes "length (buf s) = 128" and "0 \<le> blen s" and "blen s \<le> 128"
    and "blen s + int (length (rx s)) > 128"
  shows "blen (pushBytes s) = 128 \<and>
         pending (pushBytes s) = pending s @ take (nat (128 - blen s)) (rx s) \<and>
         rx (pushBytes s) = drop (nat (128 - blen s)) (rx s)"
proof -
  from assms have ok: "buf_ok s" by (simp add: buf_ok_def BUF_SIZE_def)
  from assms have i: "intake s = nat (128 - blen s)" by (simp add: intake_def BUF_SIZE_def)
  from assms have n: "nat (blen s) + nat (128 - blen s) = 128" "nat (blen s) \<le> 128" by simp_all
  have l: "nat (128 - blen s) \<le> length (rx s)" using assms by simp
  have m: "128 - nat (blen s) = nat (128 - blen s)" using assms by simp
  show ?thesis
    unfolding pushBytes_eq [OF ok] i pending_def using assms n l
    by (simp add: m)
qed

theorem pushBytes_overflow_keeps_oldest_witness:
  "pending (pushBytes (init\<lparr>buf := replicate 29 1 @ replicate 99 0, blen := 29,
                            rx := replicate 99 2 @ [3]\<rparr>)) = replicate 29 1 @ replicate 99 2"
proof -
  define s where "s = init\<lparr>buf := replicate 29 1 @ replicate 99 0, blen := 29,
                            rx := replicate 99 2 @ [3]\<rparr>"
  have "length (buf s) = 128" "0 \<le> blen s" "blen s \<le> 128" "blen s + int (length (rx s)) > 128"
    by (simp_all add: s_def)
  from pushBytes_overflow_keeps_oldest [OF this]
  have "pending (pushBytes s) = pending s @ take (nat (128 - blen s)) (rx s)" by blast
  also have "\<dots> = replicate 29 1 @ replicate 99 2" by (simp add: s_def pending_def)
  finally show ?thesis unfolding s_def .
qed

subsection \<open>Frame synchronizer\<close>

lemma findHdr_at_start: "i \<le> n - 30 \<Longrightarrow> hdrAt b i \<Longrightarrow> findHdr b n i = i"
  by (subst findHdr.simps) simp

text \<open>
  The scan stops at \<open>blen - 30\<close>: a header it finds always has its 30 bytes in the buffer,
  so the branch \<^verbatim>\<open>if (h+30 > blen)\<close> of \<^verbatim>\<open>parseFrames\<close> is never taken.
\<close>

lemma findHdr_range:
  "findHdr b n i = - 1 \<or> (i \<le> findHdr b n i \<and> findHdr b n i \<le> n - 30)"
proof (induction b n i rule: findHdr.induct)
  case (1 b n i)
  show ?case
  proof (cases "i \<le> n - 30 \<and> \<not> hdrAt b i")
    case True
    then have "findHdr b n i = findHdr b n (i + 1)" by (subst findHdr.simps) simp
    with 1 True show ?thesis by fastforce
  next
    case False
    then show ?thesis by (subst (1 2 3) findHdr.simps) auto
  qed
qed

lemma findHdr_none:
  "(\<And>j. i \<le> j \<Longrightarrow> j \<le> n - 30 \<Longrightarrow> \<not> hdrAt b j) \<Longrightarrow> findHdr b n i = - 1"
proof (induction b n i rule: findHdr.induct)
  case (1 b n i)
  show ?case
  proof (cases "i \<le> n - 30")
    case True
    with 1(2) have nh: "\<not> hdrAt b i" by simp
    have "findHdr b n (i + 1) = - 1" using 1(1) [OF True nh] 1(2) by simp
    with True nh show ?thesis by (subst findHdr.simps) simp
  next
    case False
    then show ?thesis by (subst findHdr.simps) simp
  qed
qed

lemma hdrAt_front:
  assumes "take 4 b = HDR"
  shows "hdrAt b 0"
proof -
  have "idx b i = HDR ! nat i" if "0 \<le> i" "i < 4" for i
  proof -
    from that have "nat i < 4" by simp
    then have "take 4 b ! nat i = b ! nat i" by simp
    with assms show ?thesis by (simp add: idx_def)
  qed
  from this [of 0] this [of 1] this [of 2] this [of 3] show ?thesis
    by (simp add: hdrAt_def)
qed

lemma findHdr_front: "30 \<le> n \<Longrightarrow> take 4 b = HDR \<Longrightarrow> findHdr b n 0 = 0"
  by (intro findHdr_at_start hdrAt_front) simp_all

text \<open>The three ways one turn of the loop of \<^verbatim>\<open>parseFrames\<close> can go.\<close>

lemma parse_short: "blen s < 30 \<Longrightarrow> parseFrames millis s = s"
  by (subst parseFrames.simps) simp

lemma parse_no_hdr:
  assumes "30 \<le> blen s" and "findHdr (buf s) (blen s) 0 = - 1"
  shows "parseFrames millis s =
         s\<lparr>buf := memmove_front (buf s) (blen s - 29) 29, blen := 29\<rparr>"
  using assms by (subst parseFrames.simps) (simp add: Let_def)

lemma parse_frame:
  assumes "30 \<le> blen s" and "findHdr (buf s) (blen s) 0 = h" and "0 \<le> h"
  shows "parseFrames millis s =
         parseFrames millis (handleFrame millis (memcpy_frame (buf s) h)
            (s\<lparr>buf := memmove_front (buf s) (h + 30) (blen s - (h + 30)),
               blen := blen s - (h + 30)\<rparr>))"
proof -
  from findHdr_range [of "buf s" "blen s" 0] assms have "h + 30 \<le> blen s" by auto
  with assms show ?thesis by (subst parseFrames.simps) (simp add: Let_def)
qed

lemma length_memmove_front:
  "0 \<le> src \<Longrightarrow> 0 \<le> cnt \<Longrightarrow> nat src + nat cnt \<le> length b \<Longrightarrow>
   length (memmove_front b src cnt) = length b"
  by (simp add: memmove_front_def)

lemma take_memmove_front:
  "0 \<le> src \<Longrightarrow> 0 \<le> cnt \<Longrightarrow> nat src + nat cnt \<le> length b \<Longrightarrow>
   take (nat cnt) (memmove_front b src cnt) = take (nat cnt) (drop (nat src) b)"
  by (simp add: memmove_front_def)

lemma blen_decodeSlot [simp]: "blen (decodeSlot millis f k s) = blen s"
  by (simp add: decodeSlot_def)

lemma blen_handleFrame [simp]: "blen (handleFrame millis f s) = blen s"
  by (simp add: handleFrame_def Let_def)

lemma buf_decodeSlot [simp]: "buf (decodeSlot millis f k s) = buf s"
  by (simp add: decodeSlot_def)

lemma buf_handleFrame [simp]: "buf (handleFrame millis f s) = buf s"
  by (simp add: handleFrame_def Let_def)

lemma rx_handleFrame [simp]: "rx (handleFrame millis f s) = rx s"
  by (simp add: handleFrame_def decodeSlot_def Let_def)

lemma tr_handleFrame [simp]: "tr (handleFrame millis f s) = tr s"
  by (simp add: handleFrame_def decodeSlot_def Let_def)

lemma buf_ok_handleFrame [simp]: "buf_ok (handleFrame millis f s) = buf_ok s"
  by (simp add: buf_ok_def)

text \<open>Removing the first \<open>d\<close> bytes, as every \<^verbatim>\<open>memmove\<close> of \<^verbatim>\<open>parseFrames\<close> does.\<close>

lemma buf_ok_consume:
  assumes "buf_ok s" and "0 \<le> d" and "d \<le> blen s"
  shows "buf_ok (s\<lparr>buf := memmove_front (buf s) d (blen s - d), blen := blen s - d\<rparr>)"
proof -
  from assms have "nat d + nat (blen s - d) \<le> length (buf s)"
    unfolding buf_ok_def BUF_SIZE_def by arith
  with assms show ?thesis
    by (simp add: buf_ok_def BUF_SIZE_def length_memmove_front)
qed

lemma pending_consume:
  assumes "buf_ok s" and "0 \<le> d" and "d \<le> blen s"
  shows "pending (s\<lparr>buf := memmove_front (buf s) d (blen s - d), blen := blen s - d\<rparr>)
         = drop (nat d) (pending s)"
proof -
  from assms have le: "nat d + nat (blen s - d) \<le> length (buf s)"
    unfolding buf_ok_def BUF_SIZE_def by arith
  have "nat (blen s) - nat d = nat (blen s - d)" using assms by simp
  with assms le show ?thesis
    by (simp add: pending_def take_memmove_front drop_take)
qed

lemma buf_ok_parseFrames: "buf_ok s \<Longrightarrow> buf_ok (parseFrames millis s)"
proof (induction millis s rule: parseFrames.induct)
  case (1 millis s)
  show ?case
  proof (cases "blen s < 30")
    case True
    with 1(2) show ?thesis by (simp add: parse_short)
  next
    case False
    define h where "h = findHdr (buf s) (blen s) 0"
    from findHdr_range [of "buf s" "blen s" 0]
    have hr: "h = - 1 \<or> (0 \<le> h \<and> h + 30 \<le> blen s)" by (auto simp: h_def)
    show ?thesis
    proof (cases "h < 0")
      case True
      with hr have "findHdr (buf s) (blen s) 0 = - 1" by (simp add: h_def)
      with False have "parseFrames millis s =
          s\<lparr>buf := memmove_front (buf s) (blen s - 29) (blen s - (blen s - 29)),
            blen := blen s - (blen s - 29)\<rparr>"
        by (simp add: parse_no_hdr)
      moreover have "buf_ok (s\<lparr>buf := memmove_front (buf s) (blen s - 29) (blen s - (blen s - 29)),
            blen := blen s - (blen s - 29)\<rparr>)"
        using False 1(2) by (intro buf_ok_consume) simp_all
      ultimately show ?thesis by simp
    next
      case nn: False
      with hr have h: "0 \<le> h" "h + 30 \<le> blen s" by auto
      define s1 where "s1 = s\<lparr>buf := memmove_front (buf s) (h + 30) (blen s - (h + 30)),
               blen := blen s - (h + 30)\<rparr>"
      have ok1: "buf_ok s1" unfolding s1_def using 1(2) h by (intro buf_ok_consume) simp_all
      have eq: "parseFrames millis s =
                parseFrames millis (handleFrame millis (memcpy_frame (buf s) h) s1)"
        unfolding s1_def using False h by (intro parse_frame) (simp_all add: h_def)
      have "buf_ok (parseFrames millis (handleFrame millis (memcpy_frame (buf s) h) s1))"
      proof (rule 1(1) [where x = h and xa = "memcpy_frame (buf s) h" and xb = "h + 30"
              and xc = s1])
        show "\<not> blen s < 30" by (rule False)
        show "h = findHdr (buf s) (blen s) 0" by (simp add: h_def)
        show "\<not> h < 0" by (rule nn)
        show "\<not> blen s < h + 30" using h by simp
        show "memcpy_frame (buf s) h = memcpy_frame (buf s) h" ..
        show "h + 30 = h + 30" ..
        show "s1 = s\<lparr>buf := memmove_front (buf s) (h + 30) (blen s - (h + 30)),
                       blen := blen s - (h + 30)\<rparr>"
          by (simp add: s1_def)
        show "buf_ok (handleFrame millis (memcpy_frame (buf s) h) s1)" using ok1 by simp
      qed
      with eq show ?thesis by simp
    qed
  qed
qed

lemma buf_ok_sampleTrails [simp]: "buf_ok (sampleTrails millis s) = buf_ok s"
  by (simp add: buf_ok_def sampleTrails_def Let_def)

lemma buf_ok_step: "buf_ok s \<Longrightarrow> buf_ok (step millis e s)"
  by (cases e) (simp_all add: buf_ok_pushBytes buf_ok_parseFrames)

lemma buf_ok_run: "buf_ok s \<Longrightarrow> buf_ok (run millis es s)"
  unfolding run_def by (induction es arbitrary: s) (simp_all add: buf_ok_step)

text \<open>
  C3.  From a well-formed buffer (the start-up state is one), \<open>blen\<close> stays between 0 and
  128 after an intake, after a synchronizer pass, and after every sequence of arrivals,
  intakes, passes and trail samplings, whatever bytes arrive.
\<close>

theorem blen_within_capacity:
  assumes "length (buf s) = 128" and "0 \<le> blen s" and "blen s \<le> 128"
  shows "(0 \<le> blen (pushBytes s) \<and> blen (pushBytes s) \<le> 128) \<and>
         (0 \<le> blen (parseFrames millis s) \<and> blen (parseFrames millis s) \<le> 128) \<and>
         (0 \<le> blen (run millis es s) \<and> blen (run millis es s) \<le> 128)"
proof -
  from assms have "buf_ok s" by (simp add: buf_ok_def BUF_SIZE_def)
  from buf_ok_pushBytes [OF this] buf_ok_parseFrames [OF this, of millis]
    buf_ok_run [OF this, of millis es]
  show ?thesis by (simp add: buf_ok_def BUF_SIZE_def)
qed

theorem blen_within_capacity_witness:
  "0 \<le> blen (run (\<lambda>n. 0) [Arrive (replicate 200 7), PushBytes, ParseFrames, PushBytes] init) \<and>
   blen (run (\<lambda>n. 0) [Arrive (replicate 200 7), PushBytes, ParseFrames, PushBytes] init) \<le> 128"
proof -
  have "length (buf init) = 128" "0 \<le> blen init" "blen init \<le> 128" by (simp_all add: init_def)
  from blen_within_capacity [OF this] show ?thesis by blast
qed

lemma handleFrame_bad_tail:
  assumes "f ! 28 \<noteq> TAIL ! 0 \<or> f ! 29 \<noteq> TAIL ! 1"
  shows "handleFrame millis f s = s\<lparr>framesSeen := framesSeen s + 1, errs := errs s + 1\<rparr>"
  using assms by (auto simp add: handleFrame_def Let_def)

text \<open>
  C2.  For an extracted frame \<open>f\<close> whose last two bytes are not \<open>0x55, 0xCC\<close>, handling
  it adds one to \<open>framesSeen\<close> and one to \<open>errs\<close> and leaves \<open>framesOK\<close> and the whole
  target table as they were.  In the loop of \<^verbatim>\<open>parseFrames\<close>: when the scan finds a
  header at \<open>h\<close> and the frame copied from there is such an \<open>f\<close>, the pass goes on from
  the state in which only the buffer (the \<open>h + 30\<close> bytes removed) and these two counters
  have changed.
\<close>

theorem tail_mismatch_discards_frame:
  assumes "f ! 28 \<noteq> 0x55 \<or> f ! 29 \<noteq> 0xCC"
  shows "framesSeen (handleFrame millis f s) = framesSeen s + 1 \<and>
         errs (handleFrame millis f s) = errs s + 1 \<and>
         framesOK (handleFrame millis f s) = framesOK s \<and>
         T (handleFrame millis f s) = T s \<and>
         (30 \<le> blen s \<and> 0 \<le> findHdr (buf s) (blen s) 0 \<and>
          f = memcpy_frame (buf s) (findHdr (buf s) (blen s) 0) \<longrightarrow>
          parseFrames millis s =
          parseFrames millis
            (s\<lparr>buf := memmove_front (buf s) (findHdr (buf s) (blen s) 0 + 30)
                       (blen s - (findHdr (buf s) (blen s) 0 + 30)),
               blen := blen s - (findHdr (buf s) (blen s) 0 + 30),
               framesSeen := framesSeen s + 1,
               errs := errs s + 1\<rparr>))"
proof -
  from assms have bad: "f ! 28 \<noteq> TAIL ! 0 \<or> f ! 29 \<noteq> TAIL ! 1" by (simp add: TAIL_def)
  have "parseFrames millis s =
          parseFrames millis
            (s\<lparr>buf := memmove_front (buf s) (findHdr (buf s) (blen s) 0 + 30)
                       (blen s - (findHdr (buf s) (blen s) 0 + 30)),
               blen := blen s - (findHdr (buf s) (blen s) 0 + 30),
               framesSeen := framesSeen s + 1,
               errs := errs s + 1\<rparr>)"
    if "30 \<le> blen s" and "0 \<le> findHdr (buf s) (blen s) 0"
      and "f = memcpy_frame (buf s) (findHdr (buf s) (blen s) 0)"
    using parse_frame [OF that(1) refl that(2), of millis]
    by (simp add: that(3) [symmetric] handleFrame_bad_tail [OF bad])
  then show ?thesis by (simp add: handleFrame_bad_tail [OF bad])
qed

text \<open>
  The frame \<open>bad_frame\<close> alone in the buffer after start-up: one pass counts it as seen
  and as an error, and nothing else but the buffer length changes.
\<close>

theorem tail_mismatch_discards_frame_witness:
  "parseFrames (\<lambda>n. 0) (pushBytes (arrive bad_frame init)) =
   init\<lparr>buf := bad_frame @ replicate 98 0, blen := 0, framesSeen := 1, errs := 1\<rparr>"
proof -
  define s where "s = pushBytes (arrive bad_frame init)"
  have s: "s = init\<lparr>buf := bad_frame @ replicate 98 0, blen := 30\<rparr>"
    unfolding s_def
    by (subst pushBytes_fresh [OF buf_ok_init]) (simp_all add: init_def bad_frame_def HDR_def)
  have h: "findHdr (buf s) (blen s) 0 = 0"
    by (rule findHdr_front) (simp_all add: s bad_frame_def HDR_def)
  have f: "bad_frame = memcpy_frame (buf s) (findHdr (buf s) (blen s) 0)"
    unfolding h by (simp add: s memcpy_frame_def bad_frame_def HDR_def)
  have b: "bad_frame ! 28 \<noteq> 0x55 \<or> bad_frame ! 29 \<noteq> 0xCC"
    by (simp add: bad_frame_def HDR_def nth_append)
  have l: "30 \<le> blen s" by (simp add: s)
  from tail_mismatch_discards_frame [OF b, where s = s and millis = "\<lambda>n. 0"] l h f
  have "parseFrames (\<lambda>n. 0) s =
          parseFrames (\<lambda>n. 0)
            (s\<lparr>buf := memmove_front (buf s) 30 (blen s - 30),
               blen := blen s - 30, framesSeen := framesSeen s + 1, errs := errs s + 1\<rparr>)"
    by simp
  also have "\<dots> = s\<lparr>buf := memmove_front (buf s) 30 (blen s - 30),
               blen := blen s - 30, framesSeen := framesSeen s + 1, errs := errs s + 1\<rparr>"
    by (rule parse_short) (simp add: s)
  also have "\<dots> = init\<lparr>buf := bad_frame @ replicate 98 0, blen := 0, framesSeen := 1, errs := 1\<rparr>"
    by (simp add: s init_def memmove_front_def)
  finally show ?thesis unfolding s_def .
qed

text \<open>
  When the scan finds no header at the offsets \<open>0 .. blen - 30\<close>, the pass keeps the last
  29 bytes and drops the \<open>blen - 29\<close> before them, wherever a header may begin among the
  bytes kept.
\<close>

lemma parse_keeps_last_29:
  assumes "buf_ok s" and "30 \<le> blen s"
    and "\<And>j. 0 \<le> j \<Longrightarrow> j \<le> blen s - 30 \<Longrightarrow> \<not> hdrAt (buf s) j"
  shows "blen (parseFrames millis s) = 29"
    and "pending (parseFrames millis s) = drop (nat (blen s - 29)) (pending s)"
proof -
  have "findHdr (buf s) (blen s) 0 = - 1" using assms(3) by (rule findHdr_none)
  with assms(2) have eq: "parseFrames millis s =
      s\<lparr>buf := memmove_front (buf s) (blen s - 29) (blen s - (blen s - 29)),
        blen := blen s - (blen s - 29)\<rparr>"
    by (simp add: parse_no_hdr)
  show "blen (parseFrames millis s) = 29" unfolding eq by simp
  show "pending (parseFrames millis s) = drop (nat (blen s - 29)) (pending s)"
    unfolding eq using assms(1,2) by (intro pending_consume) simp_all
qed

text \<open>
  C7.  The code at a buffer of 30 bytes that holds ten bytes \<open>0\<close>, then the header at
  offset 10, then sixteen more bytes: the scan looks at offset 0 only (\<open>blen - 30 = 0\<close>),
  finds no header, and the pass drops \<open>blen - 29 = 1\<close> byte.  The claim has it drop the 10
  bytes before the header; after the pass the header is at offset 9, not at the front, and
  29 bytes are buffered, not 20.
\<close>

theorem late_header_garbage_kept:
  "blen (pushBytes (arrive (replicate 10 0 @ HDR @ replicate 16 0) init)) = 30 \<and>
   hdrAt (buf (pushBytes (arrive (replicate 10 0 @ HDR @ replicate 16 0) init))) 10 \<and>
   blen (parseFrames (\<lambda>n. 0) (pushBytes (arrive (replicate 10 0 @ HDR @ replicate 16 0) init)))
     = 29 \<and>
   pending (parseFrames (\<lambda>n. 0) (pushBytes (arrive (replicate 10 0 @ HDR @ replicate 16 0) init)))
     = replicate 9 0 @ HDR @ replicate 16 0"
proof -
  define s where "s = pushBytes (arrive (replicate 10 0 @ HDR @ replicate 16 0) init)"
  have s: "s = init\<lparr>buf := (replicate 10 0 @ HDR @ replicate 16 0) @ replicate 98 0, blen := 30\<rparr>"
    unfolding s_def
    by (subst pushBytes_fresh [OF buf_ok_init]) (simp_all add: init_def HDR_def)
  have h10: "hdrAt (buf s) 10"
    by (simp add: s hdrAt_def idx_def HDR_def nth_append)
  have "\<not> hdrAt (buf s) 0" by (simp add: s hdrAt_def idx_def HDR_def nth_append)
  then have "findHdr (buf s) (blen s) 0 = - 1"
    by (intro findHdr_none) (auto simp: s)
  then have "parseFrames (\<lambda>n. 0) s = s\<lparr>buf := memmove_front (buf s) (blen s - 29) 29, blen := 29\<rparr>"
    by (intro parse_no_hdr) (simp_all add: s)
  then have "blen (parseFrames (\<lambda>n. 0) s) = 29"
    and "pending (parseFrames (\<lambda>n. 0) s) = replicate 9 0 @ HDR @ replicate 16 0"
    by (simp_all add: pending_def s memmove_front_def HDR_def)
  with h10 show ?thesis unfolding s_def [symmetric] by (simp add: s)
qed

subsection \<open>Frames at the front of the buffer\<close>

lemma handleFrame_set_buf:
  "handleFrame millis f (s\<lparr>buf := b, blen := n\<rparr>) =
   (handleFrame millis f s)\<lparr>buf := b, blen := n\<rparr>"
  by (simp add: handleFrame_def decodeSlot_def Let_def)

lemma fold_handleFrame_set_buf:
  "fold (handleFrame millis) fs (s\<lparr>buf := b, blen := n\<rparr>) =
   (fold (handleFrame millis) fs s)\<lparr>buf := b, blen := n\<rparr>"
  by (induction fs arbitrary: s) (simp_all add: handleFrame_set_buf)

lemma pending_frame_front:
  assumes "pending s = f @ r" and "valid_frame f"
  shows "hdrAt (buf s) 0" and "memcpy_frame (buf s) 0 = f" and "30 \<le> blen s"
proof -
  from assms(2) have len: "length f = 30" and hd: "take 4 f = HDR"
    by (simp_all add: valid_frame_def)
  from assms(1) len have "30 \<le> length (pending s)" by simp
  then have n: "30 \<le> nat (blen s)" by (simp add: pending_def)
  then show "30 \<le> blen s" by simp
  have "take 30 (buf s) = take 30 (pending s)" using n by (simp add: pending_def min_def)
  also have "\<dots> = f" using assms(1) len by simp
  finally have t30: "take 30 (buf s) = f" .
  then show "memcpy_frame (buf s) 0 = f" by (simp add: memcpy_frame_def)
  have "take 4 (buf s) = take 4 (take 30 (buf s))" by simp
  also have "\<dots> = HDR" unfolding t30 by (rule hd)
  finally show "hdrAt (buf s) 0" by (rule hdrAt_front)
qed

lemma parse_frame_front:
  assumes ok: "buf_ok s" and p: "pending s = f @ r" and v: "valid_frame f"
  shows "parseFrames millis s =
         parseFrames millis (handleFrame millis f
            (s\<lparr>buf := memmove_front (buf s) 30 (blen s - 30), blen := blen s - 30\<rparr>))"
proof -
  note fr = pending_frame_front [OF p v]
  have "findHdr (buf s) (blen s) 0 = 0" using fr by (intro findHdr_at_start) simp_all
  from parse_frame [OF fr(3) this, of millis] fr(2) show ?thesis by simp
qed

text \<open>
  A buffer that holds valid frames back to back, then fewer than 30 further bytes: one pass
  handles the frames one after the other, in the order they lie in the buffer, and leaves
  the further bytes.
\<close>

lemma parse_frames_concat:
  assumes "buf_ok s" and "pending s = concat fs @ r" and "\<forall>f \<in> set fs. valid_frame f"
    and "length r < 30"
  shows "\<exists>b. parseFrames millis s =
              (fold (handleFrame millis) fs s)\<lparr>buf := b, blen := int (length r)\<rparr>"
  using assms
proof (induction fs arbitrary: s)
  case Nil
  then have "blen s = int (length r)" "blen s < 30"
    by (auto simp: pending_def buf_ok_def BUF_SIZE_def)
  then have "parseFrames millis s =
             (fold (handleFrame millis) [] s)\<lparr>buf := buf s, blen := int (length r)\<rparr>"
    by (simp add: parse_short)
  then show ?case by (rule exI)
next
  case (Cons f fs)
  from Cons.prems have v: "valid_frame f" and p: "pending s = f @ (concat fs @ r)" by simp_all
  note fr = pending_frame_front [OF p v]
  define s1 where
    "s1 = s\<lparr>buf := memmove_front (buf s) 30 (blen s - 30), blen := blen s - 30\<rparr>"
  have ok1: "buf_ok s1"
    unfolding s1_def using Cons.prems(1) fr(3) by (intro buf_ok_consume) simp_all
  have "pending s1 = drop (nat 30) (pending s)"
    unfolding s1_def using Cons.prems(1) fr(3) by (intro pending_consume) simp_all
  also have "\<dots> = concat fs @ r" using p v by (simp add: valid_frame_def)
  finally have p1: "pending s1 = concat fs @ r" .
  have p1': "pending (handleFrame millis f s1) = concat fs @ r"
    using p1 by (simp add: pending_def)
  from Cons.IH [of "handleFrame millis f s1"] ok1 p1' Cons.prems
  obtain b where b: "parseFrames millis (handleFrame millis f s1) =
      (fold (handleFrame millis) fs (handleFrame millis f s1))\<lparr>buf := b, blen := int (length r)\<rparr>"
    by auto
  have "parseFrames millis s = parseFrames millis (handleFrame millis f s1)"
    unfolding s1_def by (rule parse_frame_front [OF Cons.prems(1) p v])
  also note b
  finally have "parseFrames millis s =
      (fold (handleFrame millis) (f # fs) s)\<lparr>buf := b, blen := int (length r)\<rparr>"
    by (simp add: s1_def handleFrame_set_buf fold_handleFrame_set_buf)
  then show ?case by blast
qed

lemma handleFrame_valid:
  assumes "valid_frame f"
  shows "handleFrame millis f s =
         (fold (decodeSlot millis f) [0, 1, 2] s)\<lparr>framesSeen := framesSeen s + 1,
                                                   framesOK := framesOK s + 1\<rparr>"
  using assms by (simp add: handleFrame_def valid_frame_def decodeSlot_def Let_def)

lemma counters_fold_valid:
  assumes "\<forall>f \<in> set fs. valid_frame f"
  shows "framesOK (fold (handleFrame millis) fs s) = framesOK s + of_nat (length fs) \<and>
         framesSeen (fold (handleFrame millis) fs s) = framesSeen s + of_nat (length fs) \<and>
         errs (fold (handleFrame millis) fs s) = errs s \<and>
         ticks (fold (handleFrame millis) fs s) = ticks s + 3 * length fs \<and>
         rx (fold (handleFrame millis) fs s) = rx s"
  using assms
proof (induction fs arbitrary: s)
  case Nil
  show ?case by simp
next
  case (Cons f fs)
  then have v: "valid_frame f" and vs: "\<forall>f \<in> set fs. valid_frame f" by simp_all
  have h: "framesOK (handleFrame millis f s) = framesOK s + 1"
    "framesSeen (handleFrame millis f s) = framesSeen s + 1"
    "errs (handleFrame millis f s) = errs s"
    "ticks (handleFrame millis f s) = ticks s + 3"
    by (simp_all add: handleFrame_valid [OF v] decodeSlot_def Let_def)
  from Cons.IH [OF vs, of "handleFrame millis f s"] h show ?case by simp
qed

lemma length_concat_frames:
  "\<forall>f \<in> set fs. valid_frame f \<Longrightarrow> length (concat fs) = 30 * length fs"
  by (induction fs) (simp_all add: valid_frame_def)

text \<open>The table after a valid frame: the three sub-records, each stamped in turn.\<close>

lemma T_handleFrame_valid:
  assumes "valid_frame f" and "length (T s) = 3"
  shows "T (handleFrame millis f s) =
         map (\<lambda>k. decodeRaw (le_u16 f (4 + k * 8)) (le_u16 f (4 + k * 8 + 2))
                             (le_u16 f (4 + k * 8 + 4)) (millis (ticks s + k))) [0, 1, 2]"
proof -
  from assms(2) obtain a b c where "T s = [a, b, c]"
    by (cases "T s"; simp; rename_tac x xs; case_tac xs; simp; rename_tac y ys; case_tac ys; simp)
  then show ?thesis
    by (simp add: handleFrame_valid [OF assms(1)] decodeSlot_def Let_def)
qed

lemma length_T_handleFrame [simp]: "length (T (handleFrame millis f s)) = length (T s)"
  by (simp add: handleFrame_def decodeSlot_def Let_def)

lemma length_T_fold_handleFrame [simp]:
  "length (T (fold (handleFrame millis) fs s)) = length (T s)"
  by (induction fs arbitrary: s) simp_all

lemma T_fold_last:
  assumes "\<forall>f \<in> set fs. valid_frame f" and "fs \<noteq> []" and "length (T s) = 3"
  shows "T (fold (handleFrame millis) fs s) =
         map (\<lambda>k. decodeRaw (le_u16 (last fs) (4 + k * 8)) (le_u16 (last fs) (4 + k * 8 + 2))
                             (le_u16 (last fs) (4 + k * 8 + 4))
                             (millis (ticks s + 3 * (length fs - 1) + k))) [0, 1, 2]"
proof -
  from assms(2) obtain gs g where fs: "fs = gs @ [g]" by (cases fs rule: rev_cases) auto
  with assms(1) have v: "valid_frame g" and vs: "\<forall>f \<in> set gs. valid_frame f" by simp_all
  have t: "ticks (fold (handleFrame millis) gs s) = ticks s + 3 * length gs"
    using counters_fold_valid [OF vs] by blast
  have "T (fold (handleFrame millis) fs s) =
        T (handleFrame millis g (fold (handleFrame millis) gs s))"
    by (simp add: fs)
  also have "\<dots> = map (\<lambda>k. decodeRaw (le_u16 g (4 + k * 8)) (le_u16 g (4 + k * 8 + 2))
                             (le_u16 g (4 + k * 8 + 4))
                             (millis (ticks (fold (handleFrame millis) gs s) + k))) [0, 1, 2]"
    by (rule T_handleFrame_valid [OF v]) (simp add: assms(3))
  finally show ?thesis by (simp add: t fs)
qed

lemma parse_pushed_frames:
  assumes ok: "buf_ok s" and e: "blen s = 0" "rx s = []"
    and v: "\<forall>f \<in> set fs. valid_frame f" and n: "length fs \<le> 4"
  shows "\<exists>b. parseFrames millis (pushBytes (arrive (concat fs) s)) =
             (fold (handleFrame millis) fs s)\<lparr>buf := b, blen := 0\<rparr>"
proof -
  have len: "length (concat fs) = 30 * length fs" by (rule length_concat_frames [OF v])
  with n have le: "length (concat fs) \<le> 128" by simp
  define w where "w = pushBytes (arrive (concat fs) s)"
  have w: "w = s\<lparr>buf := concat fs @ drop (length (concat fs)) (buf s),
                 blen := int (length (concat fs))\<rparr>"
    unfolding w_def by (rule pushBytes_fresh [OF ok e le])
  have okw: "buf_ok w" unfolding w_def using ok by (simp add: buf_ok_pushBytes)
  have pw: "pending w = concat fs @ []" by (simp add: w pending_def)
  from parse_frames_concat [OF okw pw v, of millis]
  obtain b where "parseFrames millis w = (fold (handleFrame millis) fs w)\<lparr>buf := b, blen := 0\<rparr>"
    by auto
  then have "parseFrames millis w = (fold (handleFrame millis) fs s)\<lparr>buf := b, blen := 0\<rparr>"
    by (simp add: w fold_handleFrame_set_buf)
  then show ?thesis unfolding w_def by blast
qed

lemma valid_frame_xy: "valid_frame (frame_xy a b)"
  by (simp add: valid_frame_def frame_xy_def HDR_def TAIL_def nth_append)

lemma length_frame_xy: "length (frame_xy a b) = 30"
  by (simp add: frame_xy_def HDR_def TAIL_def)

text \<open>
  C5, as the spec words it, for every \<open>N\<close>.  Five valid frames are 150 bytes; the
  intake stops at 128, so one intake and one pass accept four frames and leave the last 22
  bytes of the fifth in the queue.
\<close>

theorem five_frames_counterexample:
  "framesOK (parseFrames (\<lambda>n. 0) (pushBytes (arrive
      (concat [frame_xy 1 0, frame_xy 2 0, frame_xy 3 0, frame_xy 4 0, frame_xy 5 0]) init))) \<noteq> 5 \<and>
   framesOK (parseFrames (\<lambda>n. 0) (pushBytes (arrive
      (concat [frame_xy 1 0, frame_xy 2 0, frame_xy 3 0, frame_xy 4 0, frame_xy 5 0]) init))) = 4 \<and>
   rx (parseFrames (\<lambda>n. 0) (pushBytes (arrive
      (concat [frame_xy 1 0, frame_xy 2 0, frame_xy 3 0, frame_xy 4 0, frame_xy 5 0]) init)))
     = drop 8 (frame_xy 5 0)"
proof -
  define s where "s = arrive
      (concat [frame_xy 1 0, frame_xy 2 0, frame_xy 3 0, frame_xy 4 0, frame_xy 5 0]) init"
  define w where "w = pushBytes s"
  note l = length_frame_xy
  have ok: "buf_ok s" by (simp add: s_def buf_ok_init)
  have i: "intake s = 128" by (simp add: s_def intake_def arrive_def init_def BUF_SIZE_def l)
  have w: "w = s\<lparr>buf := concat [frame_xy 1 0, frame_xy 2 0, frame_xy 3 0, frame_xy 4 0]
                        @ take 8 (frame_xy 5 0),
                 blen := 128, rx := drop 8 (frame_xy 5 0)\<rparr>"
    unfolding w_def pushBytes_eq [OF ok] i by (simp add: s_def arrive_def init_def l)
  have okw: "buf_ok w" unfolding w_def by (rule buf_ok_pushBytes [OF ok])
  have pw: "pending w = concat [frame_xy 1 0, frame_xy 2 0, frame_xy 3 0, frame_xy 4 0]
                        @ take 8 (frame_xy 5 0)"
    by (simp add: w pending_def l)
  have v: "\<forall>f \<in> set [frame_xy 1 0, frame_xy 2 0, frame_xy 3 0, frame_xy 4 0]. valid_frame f"
    by (simp add: valid_frame_xy)
  from parse_frames_concat [OF okw pw v, of "\<lambda>n. 0"]
  obtain b where eq: "parseFrames (\<lambda>n. 0) w =
      (fold (handleFrame (\<lambda>n. 0)) [frame_xy 1 0, frame_xy 2 0, frame_xy 3 0, frame_xy 4 0] w)
        \<lparr>buf := b, blen := int (length (take 8 (frame_xy 5 0)))\<rparr>"
    by (auto simp: l)
  from counters_fold_valid [OF v, of "\<lambda>n. 0" w]
  have "framesOK (parseFrames (\<lambda>n. 0) w) \<noteq> 5 \<and>
        framesOK (parseFrames (\<lambda>n. 0) w) = 4 \<and>
        rx (parseFrames (\<lambda>n. 0) w) = drop 8 (frame_xy 5 0)"
    unfolding eq by (simp add: w s_def arrive_def init_def)
  then show ?thesis unfolding w_def s_def .
qed

text \<open>
  C5, amended.  For up to four valid frames (\<open>30 N \<le> 128\<close>) that arrive back to back
  while buffer and queue are empty, one intake and one pass add \<open>N\<close> to \<open>framesOK\<close> and
  to \<open>framesSeen\<close>, count no error, and empty the buffer.  The frames are handled in the
  order of the input: the table is the one obtained by handling them one after the other,
  so it ends as decoded from the last frame.
\<close>

theorem back_to_back_frames_within_capacity:
  assumes "length (buf s) = 128" and "blen s = 0" and "rx s = []"
    and "\<forall>f \<in> set fs. valid_frame f" and "length fs \<le> 4"
  shows "framesOK (parseFrames millis (pushBytes (arrive (concat fs) s)))
           = framesOK s + of_nat (length fs) \<and>
         framesSeen (parseFrames millis (pushBytes (arrive (concat fs) s)))
           = framesSeen s + of_nat (length fs) \<and>
         errs (parseFrames millis (pushBytes (arrive (concat fs) s))) = errs s \<and>
         blen (parseFrames millis (pushBytes (arrive (concat fs) s))) = 0 \<and>
         rx (parseFrames millis (pushBytes (arrive (concat fs) s))) = [] \<and>
         T (parseFrames millis (pushBytes (arrive (concat fs) s)))
           = T (fold (handleFrame millis) fs s) \<and>
         (fs \<noteq> [] \<and> length (T s) = 3 \<longrightarrow>
          T (parseFrames millis (pushBytes (arrive (concat fs) s))) =
          map (\<lambda>k. decodeRaw (le_u16 (last fs) (4 + k * 8)) (le_u16 (last fs) (4 + k * 8 + 2))
                              (le_u16 (last fs) (4 + k * 8 + 4))
                              (millis (ticks s + 3 * (length fs - 1) + k))) [0, 1, 2])"
proof -
  from assms have ok: "buf_ok s" by (simp add: buf_ok_def BUF_SIZE_def)
  from parse_pushed_frames [OF ok assms(2-5), of millis]
  obtain b where eq: "parseFrames millis (pushBytes (arrive (concat fs) s)) =
             (fold (handleFrame millis) fs s)\<lparr>buf := b, blen := 0\<rparr>" by blast
  note c = counters_fold_valid [OF assms(4), of millis s]
  have l: "T (fold (handleFrame millis) fs s) =
          map (\<lambda>k. decodeRaw (le_u16 (last fs) (4 + k * 8)) (le_u16 (last fs) (4 + k * 8 + 2))
                              (le_u16 (last fs) (4 + k * 8 + 4))
                              (millis (ticks s + 3 * (length fs - 1) + k))) [0, 1, 2]"
    if "fs \<noteq> []" "length (T s) = 3"
    using T_fold_last [OF assms(4) that] .
  show ?thesis unfolding eq using c l assms(3) by simp
qed

text \<open>
  Three frames with \<open>x = 1\<close>, \<open>x = 2\<close> and \<open>x = 3\<close> in slot 0, after start-up: three
  frames are accepted and slot 0 ends with \<open>x = 3\<close>.
\<close>

theorem back_to_back_frames_within_capacity_witness:
  "framesOK (parseFrames (\<lambda>n. 0) (pushBytes (arrive
      (concat [frame_xy 1 0, frame_xy 2 0, frame_xy 3 0]) init))) = 3 \<and>
   sint (Tx (T (parseFrames (\<lambda>n. 0) (pushBytes (arrive
      (concat [frame_xy 1 0, frame_xy 2 0, frame_xy 3 0]) init))) ! 0)) = 3"
proof -
  define fs where "fs = [frame_xy 1 0, frame_xy 2 0, frame_xy 3 0]"
  have i: "length (buf init) = 128" "blen init = 0" "rx init = []" by (simp_all add: init_def)
  have v: "\<forall>f \<in> set fs. valid_frame f" by (simp add: fs_def valid_frame_xy)
  have n: "length fs \<le> 4" by (simp add: fs_def)
  have t: "fs \<noteq> [] \<and> length (T init) = 3" by (simp add: fs_def init_def)
  from back_to_back_frames_within_capacity [OF i v n, of "\<lambda>n. 0"] t
  have "framesOK (parseFrames (\<lambda>n. 0) (pushBytes (arrive (concat fs) init)))
           = framesOK init + of_nat (length fs)"
    and "T (parseFrames (\<lambda>n. 0) (pushBytes (arrive (concat fs) init))) =
          map (\<lambda>k. decodeRaw (le_u16 (last fs) (4 + k * 8)) (le_u16 (last fs) (4 + k * 8 + 2))
                              (le_u16 (last fs) (4 + k * 8 + 4)) 0) [0, 1, 2]"
    by blast+
  then have "framesOK (parseFrames (\<lambda>n. 0) (pushBytes (arrive (concat fs) init))) = 3"
    and "sint (Tx (T (parseFrames (\<lambda>n. 0) (pushBytes (arrive (concat fs) init))) ! 0)) = 3"
    by (simp_all add: fs_def init_def frame_xy_def HDR_def le_u16_def decodeRaw_def decodeX_def
        to_int16_def Let_def)
  then show ?thesis unfolding fs_def by simp
qed

subsection \<open>A frame delivered in two parts\<close>

lemma pushBytes_whole_frame:
  assumes "buf_ok s" and "blen s = 0" and "rx s = []" and "length f = 30"
  shows "pushBytes (arrive f s) = s\<lparr>buf := f @ drop 30 (buf s), blen := 30\<rparr>"
  using pushBytes_fresh [OF assms(1-3), of f] assms(4) by simp

text \<open>
  The first \<open>k < 30\<close> bytes are too few for a pass to touch; the second intake puts the
  rest right behind them.
\<close>

lemma pushBytes_split_frame:
  assumes ok: "buf_ok s" and e: "blen s = 0" "rx s = []" and l: "length f = 30" and k: "k < 30"
  shows "pushBytes (arrive (drop k f) (parseFrames millis (pushBytes (arrive (take k f) s))))
         = s\<lparr>buf := f @ drop 30 (buf s), blen := 30\<rparr>"
proof -
  define a where "a = pushBytes (arrive (take k f) s)"
  have a: "a = s\<lparr>buf := take k f @ drop k (buf s), blen := int k\<rparr>"
    unfolding a_def using pushBytes_fresh [OF ok e, of "take k f"] l k by (simp add: min_def)
  have "blen a < 30" using k by (simp add: a)
  then have pa: "parseFrames millis a = a" by (rule parse_short)
  define c where "c = arrive (drop k f) a"
  have okc: "buf_ok c" unfolding c_def a_def using ok by (simp add: buf_ok_pushBytes)
  have bl: "length (buf s) = 128" using ok by (simp add: buf_ok_def)
  have i: "intake c = 30 - k"
    using l k e by (simp add: c_def a intake_def arrive_def BUF_SIZE_def)
  have "pushBytes c = s\<lparr>buf := f @ drop 30 (buf s), blen := 30\<rparr>"
    unfolding pushBytes_eq [OF okc] i using l k e bl
    by (simp add: c_def a arrive_def min_def)
  then show ?thesis by (simp add: c_def pa [unfolded a_def] a_def)
qed

text \<open>
  C8.  A valid frame \<open>f\<close> arrives while buffer and queue are empty.  For every split point
  \<open>k\<close>: the first \<open>k\<close> bytes, an intake and a pass, then the remaining bytes, an intake and
  a pass, end in the same state (table, counters, buffer, queue) as all of \<open>f\<close>, one intake
  and one pass; and that state has one more frame seen and accepted, no error more, and an
  empty buffer and queue.
\<close>

theorem split_frame_same_as_whole:
  assumes "length (buf s) = 128" and "blen s = 0" and "rx s = []" and "valid_frame f"
  shows "parseFrames millis (pushBytes (arrive (drop k f)
            (parseFrames millis (pushBytes (arrive (take k f) s)))))
         = parseFrames millis (pushBytes (arrive f s)) \<and>
         framesOK (parseFrames millis (pushBytes (arrive f s))) = framesOK s + 1 \<and>
         framesSeen (parseFrames millis (pushBytes (arrive f s))) = framesSeen s + 1 \<and>
         errs (parseFrames millis (pushBytes (arrive f s))) = errs s \<and>
         T (parseFrames millis (pushBytes (arrive f s))) = T (handleFrame millis f s) \<and>
         blen (parseFrames millis (pushBytes (arrive f s))) = 0 \<and>
         rx (parseFrames millis (pushBytes (arrive f s))) = []"
proof -
  from assms have ok: "buf_ok s" by (simp add: buf_ok_def BUF_SIZE_def)
  from assms(4) have l: "length f = 30" by (simp add: valid_frame_def)
  define p where "p = parseFrames millis (pushBytes (arrive f s))"
  have one: "\<forall>g \<in> set [f]. valid_frame g" "length [f] \<le> 4" using assms(4) by simp_all
  from parse_pushed_frames [OF ok assms(2,3) one, of millis]
  obtain b where eq: "p = (fold (handleFrame millis) [f] s)\<lparr>buf := b, blen := 0\<rparr>"
    unfolding p_def by auto
  from counters_fold_valid [OF one(1), of millis s] assms(3)
  have c: "framesOK p = framesOK s + 1" "framesSeen p = framesSeen s + 1" "errs p = errs s"
    "blen p = 0" "rx p = []" "T p = T (handleFrame millis f s)"
    unfolding eq by simp_all
  have "parseFrames millis (pushBytes (arrive (drop k f)
            (parseFrames millis (pushBytes (arrive (take k f) s))))) = p"
  proof (cases "k < 30")
    case True
    show ?thesis
      unfolding pushBytes_split_frame [OF ok assms(2,3) l True] p_def
        pushBytes_whole_frame [OF ok assms(2,3) l] ..
  next
    case False
    with l have "take k f = f" "drop k f = []" by simp_all
    then have "parseFrames millis (pushBytes (arrive (drop k f)
            (parseFrames millis (pushBytes (arrive (take k f) s)))))
          = parseFrames millis (pushBytes p)"
      by (simp add: p_def)
    also have "pushBytes p = p" using c(5) by (rule pushBytes_idle)
    also have "parseFrames millis p = p" using c(4) by (intro parse_short) simp
    finally show ?thesis .
  qed
  with c show ?thesis unfolding p_def by simp
qed

text \<open>The frame \<open>frame_xy 7 9\<close> after start-up, split after 15 bytes.\<close>

theorem split_frame_same_as_whole_witness:
  "parseFrames (\<lambda>n. 0) (pushBytes (arrive (drop 15 (frame_xy 7 9))
      (parseFrames (\<lambda>n. 0) (pushBytes (arrive (take 15 (frame_xy 7 9)) init)))))
   = parseFrames (\<lambda>n. 0) (pushBytes (arrive (frame_xy 7 9) init)) \<and>
   framesOK (parseFrames (\<lambda>n. 0) (pushBytes (arrive (frame_xy 7 9) init))) = 1"
proof -
  have "length (buf init) = 128" "blen init = 0" "rx init = []" by (simp_all add: init_def)
  from split_frame_same_as_whole [OF this valid_frame_xy, of "\<lambda>n. 0" 15 7 9]
  show ?thesis by (simp add: init_def)
qed

subsection \<open>Trail recorder\<close>

lemma c_rem_small: "0 \<le> a \<Longrightarrow> a < b \<Longrightarrow> c_rem a b = a"
  by (simp add: c_rem_def)

lemma c_rem_wrap: "0 < b \<Longrightarrow> c_rem b b = 0"
  by (simp add: c_rem_def)

lemma mod100_drop_turn: "(h - 100 + j) mod 100 = (h + j) mod (100::int)"
proof -
  have "h - 100 + j = (h + j) - 100" by simp
  then show ?thesis by (simp only: minus_mod_self2)
qed

lemma mod100_next:
  assumes "h' = (h + 1) mod 100"
  shows "(h' - 100 + j) mod 100 = (h + (j + 1)) mod (100::int)"
proof -
  have "(h' - 100 + j) mod 100 = (h' + j) mod 100" by (rule mod100_drop_turn)
  also have "\<dots> = ((h + 1) mod 100 + j) mod 100" by (simp only: assms)
  also have "\<dots> = (h + 1 + j) mod 100" by (rule mod_add_left_eq)
  also have "h + 1 + j = h + (j + 1)" by simp
  finally show ?thesis .
qed

lemma mod100_other_slot:
  assumes "0 \<le> h" and "h < 100" and "k < 99"
  shows "(h + (int k + 1)) mod 100 \<noteq> (h::int)"
proof (cases "h + (int k + 1) < 100")
  case True
  with assms have "(h + (int k + 1)) mod 100 = h + (int k + 1)"
    by (intro mod_pos_pos_trivial) simp_all
  then show ?thesis by simp
next
  case False
  have "(h + (int k + 1)) mod 100 = (h + (int k + 1) - 100) mod 100"
    by (simp only: minus_mod_self2)
  also have "\<dots> = h + (int k + 1) - 100"
    using False assms by (intro mod_pos_pos_trivial) simp_all
  finally show ?thesis using assms by simp
qed

text \<open>
  A sampling that is due appends the target's position to the logical order of the trail;
  once the trail is full, the oldest entry gives way.
\<close>

lemma stored_sampleSlot:
  assumes ok: "trail_ok r" and due: "120 \<le> now - trLast r"
  shows "stored (sampleSlot now t r) =
         (if trN r < TRAIL_LEN then stored r else tl (stored r)) @ [(Tx t, Ty t)]"
proof (cases "trN r < TRAIL_LEN")
  case True
  with ok have h: "trHead r = trN r" and n: "0 \<le> trN r" "trN r < 100"
    and lx: "length (trX r) = 100" and ly: "length (trY r) = 100"
    by (auto simp: trail_ok_def TRAIL_LEN_def)
  define r' where "r' = sampleSlot now t r"
  have r': "trX r' = (trX r)[nat (trN r) := Tx t]" "trY r' = (trY r)[nat (trN r) := Ty t]"
    "trN r' = trN r + 1" "trHead r' = c_rem (trN r + 1) 100"
    using due True h by (simp_all add: r'_def sampleSlot_def TRAIL_LEN_def)
  have ix: "(trHead r' - trN r' + j) mod 100 = j" if "0 \<le> j" "j \<le> trN r" for j
  proof (cases "trN r + 1 < 100")
    case True
    then have "trHead r' = trN r + 1" using n by (simp add: r' c_rem_small)
    then show ?thesis using that n by (simp add: r')
  next
    case False
    with n have e: "trN r + 1 = 100" by simp
    then have "trHead r' = 0" by (simp add: r' c_rem_wrap)
    then have "(trHead r' - trN r' + j) mod 100 = (j - 100) mod 100" using e by (simp add: r')
    also have "\<dots> = j mod 100" by (rule minus_mod_self2)
    also have "\<dots> = j" using that n by simp
    finally show ?thesis .
  qed
  have "stored r' = stored r @ [(Tx t, Ty t)]"
  proof (rule nth_equalityI)
    show "length (stored r') = length (stored r @ [(Tx t, Ty t)])"
      using n by (simp add: stored_def r')
  next
    fix k assume "k < length (stored r')"
    then have k: "k \<le> nat (trN r)" using n by (simp add: stored_def r')
    have u: "[0 .. trN r' - 1] ! k = int k" using k n by (simp add: r' nth_upto)
    show "stored r' ! k = (stored r @ [(Tx t, Ty t)]) ! k"
    proof (cases "k < nat (trN r)")
      case True
      then have u0: "[0 .. trN r - 1] ! k = int k" using n by (simp add: nth_upto)
      from True have ne: "nat (int k) \<noteq> nat (trN r)" by simp
      have "stored r' ! k = (idx (trX r) (int k), idx (trY r) (int k))"
        using True n k ix [of "int k"] ne
        by (simp add: stored_def r' u TRAIL_LEN_def Let_def idx_def)
      moreover have "stored r ! k = (idx (trX r) (int k), idx (trY r) (int k))"
        using True n by (simp add: stored_def u0 h TRAIL_LEN_def Let_def)
      ultimately show ?thesis using True n by (simp add: nth_append stored_def)
    next
      case False
      with k have e: "k = nat (trN r)" by simp
      have "stored r' ! k = (Tx t, Ty t)"
        using n k ix [of "trN r"] lx ly
        by (simp add: stored_def r' u TRAIL_LEN_def Let_def idx_def e)
      then show ?thesis using n by (simp add: nth_append stored_def e)
    qed
  qed
  with True show ?thesis by (simp add: r'_def)
next
  case False
  with ok have n: "trN r = 100" and h: "0 \<le> trHead r" "trHead r < 100"
    and lx: "length (trX r) = 100" and ly: "length (trY r) = 100"
    by (auto simp: trail_ok_def TRAIL_LEN_def)
  define r' where "r' = sampleSlot now t r"
  have r': "trX r' = (trX r)[nat (trHead r) := Tx t]" "trY r' = (trY r)[nat (trHead r) := Ty t]"
    "trN r' = 100" "trHead r' = c_rem (trHead r + 1) 100"
    using due n by (simp_all add: r'_def sampleSlot_def TRAIL_LEN_def)
  note r3 = r'(1-3)
  have hd: "trHead r' = (trHead r + 1) mod 100"
  proof (cases "trHead r + 1 < 100")
    case True
    then show ?thesis using h by (simp add: r' c_rem_small)
  next
    case False
    with h have "trHead r + 1 = 100" by simp
    then show ?thesis by (simp add: r' c_rem_wrap)
  qed
  have ix': "(trHead r' - 100 + j) mod 100 = (trHead r + (j + 1)) mod 100" for j
    using hd by (rule mod100_next)
  have ix0: "(trHead r - 100 + j) mod 100 = (trHead r + j) mod 100" for j
    by (rule mod100_drop_turn)
  have "stored r' = tl (stored r) @ [(Tx t, Ty t)]"
  proof (rule nth_equalityI)
    show "length (stored r') = length (tl (stored r) @ [(Tx t, Ty t)])"
      by (simp add: stored_def r' n del: upto_rec_numeral)
  next
    fix k assume "k < length (stored r')"
    then have k: "k < 100" by (simp add: stored_def r' del: upto_rec_numeral)
    have u: "[0 .. trN r' - 1] ! k = int k" using k by (simp add: r' nth_upto del: upto_rec_numeral)
    show "stored r' ! k = (tl (stored r) @ [(Tx t, Ty t)]) ! k"
    proof (cases "k < 99")
      case True
      then have u1: "[0 .. trN r - 1] ! Suc k = int k + 1" by (simp add: n nth_upto del: upto_rec_numeral)
      have "(trHead r + (int k + 1)) mod 100 \<noteq> trHead r"
        using h True by (intro mod100_other_slot)
      moreover have "0 \<le> (trHead r + (int k + 1)) mod 100" by simp
      ultimately have ne: "nat ((trHead r + (int k + 1)) mod 100) \<noteq> nat (trHead r)"
        using h by (simp add: nat_eq_iff)
      have a: "stored r' ! k = (idx (trX r) ((trHead r + (int k + 1)) mod 100),
                              idx (trY r) ((trHead r + (int k + 1)) mod 100))"
        using k ne by (simp add: stored_def r3 u [unfolded r3] TRAIL_LEN_def Let_def idx_def ix' del: upto_rec_numeral)
      have "tl (stored r) ! k = stored r ! Suc k"
        using True by (simp add: nth_tl stored_def n del: upto_rec_numeral)
      also have "\<dots> = (idx (trX r) ((trHead r + (int k + 1)) mod 100),
                              idx (trY r) ((trHead r + (int k + 1)) mod 100))"
      proof -
        have len: "Suc k < length [0 .. trN r - 1]"
          using True by (simp add: n del: upto_rec_numeral)
        have "stored r ! Suc k =
              (\<lambda>j. let ix = (trHead r - trN r + j) mod TRAIL_LEN
                    in (idx (trX r) ix, idx (trY r) ix)) ([0 .. trN r - 1] ! Suc k)"
          unfolding stored_def by (rule nth_map [OF len])
        then show ?thesis by (simp only: u1 u1 [unfolded n] Let_def n TRAIL_LEN_def ix0)
      qed
      finally show ?thesis using True a by (simp add: nth_append stored_def n del: upto_rec_numeral)
    next
      case False
      with k have e: "k = 99" by simp
      have m: "(trHead r + 100) mod 100 = trHead r" using h by simp
      have "stored r' ! k = (Tx t, Ty t)"
        using h lx ly m
        by (simp add: stored_def r3 u [unfolded r3] TRAIL_LEN_def Let_def idx_def ix' e del: upto_rec_numeral)
      then show ?thesis by (simp add: nth_append stored_def n e del: upto_rec_numeral)
    qed
  qed
  with False show ?thesis by (simp add: r'_def)
qed

lemma c_rem_nonneg: "0 \<le> a \<Longrightarrow> 0 < b \<Longrightarrow> c_rem a b = a mod b"
proof -
  assume a: "0 \<le> a" and b: "0 < b"
  have "sgn a * sgn b * (\<bar>a\<bar> div \<bar>b\<bar>) = a div b"
  proof (cases "a = 0")
    case True
    then show ?thesis by simp
  next
    case False
    with a b show ?thesis by simp
  qed
  then have "c_rem a b = a - b * (a div b)" by (simp add: c_rem_def)
  also have "\<dots> = a mod b" by (simp add: minus_mult_div_eq_mod)
  finally show ?thesis .
qed

text \<open>Sampling keeps a trail well formed, so its count never passes 100.\<close>

lemma trail_ok_sampleSlot:
  assumes "trail_ok r"
  shows "trail_ok (sampleSlot now t r)"
proof (cases "120 \<le> now - trLast r")
  case False
  with assms show ?thesis by (simp add: sampleSlot_def)
next
  case due: True
  from assms have h: "0 \<le> trHead r" "trHead r < 100" and n: "0 \<le> trN r" "trN r \<le> 100"
    and f: "trN r = 100 \<or> trHead r = trN r"
    and l: "length (trX r) = 100" "length (trY r) = 100"
    by (auto simp: trail_ok_def TRAIL_LEN_def)
  show ?thesis
  proof (cases "trHead r + 1 < 100")
    case True
    with h have "c_rem (trHead r + 1) 100 = trHead r + 1" by (simp add: c_rem_small)
    with due h n f l True show ?thesis
      by (auto simp add: trail_ok_def sampleSlot_def TRAIL_LEN_def)
  next
    case False
    with h have e: "trHead r + 1 = 100" by simp
    then have "c_rem (trHead r + 1) 100 = 0" by (simp add: c_rem_wrap)
    with due h n f l e show ?thesis
      by (auto simp add: trail_ok_def sampleSlot_def TRAIL_LEN_def)
  qed
qed

lemma trail_ok_init: "\<forall>r \<in> set (tr init). trail_ok r"
  by (simp add: init_def trail_ok_def TRAIL_LEN_def)

text \<open>
  \<^verbatim>\<open>page\<close> reads a trail from \<open>head\<close> on.  On a full trail that is the logical order.
\<close>

lemma pageTrail_full:
  assumes "trail_ok r" and "trN r = TRAIL_LEN"
  shows "pageTrail r = stored r"
proof -
  from assms have h: "0 \<le> trHead r" and n: "trN r = 100"
    by (auto simp: trail_ok_def TRAIL_LEN_def)
  have "c_rem (trHead r + j) 100 = (trHead r - trN r + j) mod 100" if "j \<in> set [0 .. trN r - 1]" for j
  proof -
    from that have "0 \<le> j" by simp
    with h have "c_rem (trHead r + j) 100 = (trHead r + j) mod 100" by (intro c_rem_nonneg) simp_all
    also have "\<dots> = (trHead r - 100 + j) mod 100" by (rule mod100_drop_turn [symmetric])
    finally show ?thesis by (simp only: n)
  qed
  then show ?thesis
    unfolding pageTrail_def stored_def TRAIL_LEN_def by (intro map_cong refl) (simp only: Let_def)
qed

lemma replicate_100: "replicate 100 x = x # replicate 99 x"
proof -
  have "(100::nat) = Suc 99" by simp
  then show ?thesis by (simp only: replicate_Suc)
qed

lemma sampleTrails_slot0:
  assumes "length (tr s) = 3"
  shows "tr (sampleTrails millis s) ! 0 = sampleSlot (millis (ticks s)) (T s ! 0) (tr s ! 0)"
proof -
  from assms obtain a b c where "tr s = [a, b, c]"
    by (cases "tr s"; simp; rename_tac x xs; case_tac xs; simp; rename_tac y ys; case_tac ys; simp)
  then show ?thesis by (simp add: sampleTrails_def Let_def)
qed

text \<open>The state after start-up, the frame \<open>frame_xy 7 9\<close>, one intake and one pass.\<close>

lemma after_frame_7_9:
  "T (parseFrames (\<lambda>n. 120) (pushBytes (arrive (frame_xy 7 9) init))) =
     [\<lparr>Tv = True, Tx = 7, Ty = 9, Tvz = 0, Tseen = 120\<rparr>,
      \<lparr>Tv = False, Tx = 0, Ty = - 32768, Tvz = 0, Tseen = 120\<rparr>,
      \<lparr>Tv = False, Tx = 0, Ty = - 32768, Tvz = 0, Tseen = 120\<rparr>]"
  "tr (parseFrames (\<lambda>n. 120) (pushBytes (arrive (frame_xy 7 9) init))) = tr init"
proof -
  have v: "\<forall>f \<in> set [frame_xy 7 9]. valid_frame f" by (simp add: valid_frame_xy)
  from parse_pushed_frames [OF buf_ok_init _ _ v, of "\<lambda>n. 120"]
  obtain b where eq: "parseFrames (\<lambda>n. 120) (pushBytes (arrive (concat [frame_xy 7 9]) init)) =
             (fold (handleFrame (\<lambda>n. 120)) [frame_xy 7 9] init)\<lparr>buf := b, blen := 0\<rparr>"
    by (auto simp: init_def)
  then show "tr (parseFrames (\<lambda>n. 120) (pushBytes (arrive (frame_xy 7 9) init))) = tr init"
    by simp
  from eq have "T (parseFrames (\<lambda>n. 120) (pushBytes (arrive (frame_xy 7 9) init))) =
     T (handleFrame (\<lambda>n. 120) (frame_xy 7 9) init)" by simp
  also have "\<dots> = map (\<lambda>k. decodeRaw (le_u16 (frame_xy 7 9) (4 + k * 8))
                             (le_u16 (frame_xy 7 9) (4 + k * 8 + 2))
                             (le_u16 (frame_xy 7 9) (4 + k * 8 + 4)) 120) [0, 1, 2]"
    by (rule T_handleFrame_valid [OF valid_frame_xy]) (simp add: init_def)
  also have "\<dots> = [\<lparr>Tv = True, Tx = 7, Ty = 9, Tvz = 0, Tseen = 120\<rparr>,
      \<lparr>Tv = False, Tx = 0, Ty = - 32768, Tvz = 0, Tseen = 120\<rparr>,
      \<lparr>Tv = False, Tx = 0, Ty = - 32768, Tvz = 0, Tseen = 120\<rparr>]"
    by (simp add: frame_xy_def HDR_def TAIL_def le_u16_def decodeRaw_def decodeX_def decodeY_def
        decodeV_def to_int16_def Let_def nth_append)
  finally show "T (parseFrames (\<lambda>n. 120) (pushBytes (arrive (frame_xy 7 9) init))) =
     [\<lparr>Tv = True, Tx = 7, Ty = 9, Tvz = 0, Tseen = 120\<rparr>,
      \<lparr>Tv = False, Tx = 0, Ty = - 32768, Tvz = 0, Tseen = 120\<rparr>,
      \<lparr>Tv = False, Tx = 0, Ty = - 32768, Tvz = 0, Tseen = 120\<rparr>]" .
qed

text \<open>
  C4.  The code after start-up, one frame that puts target 0 at \<open>(7, 9)\<close>, and the first
  trail sampling (the clock reads 120): trail 0 has one entry, \<open>(7, 9)\<close> at index 0, which
  is index \<open>(head - count) mod 100\<close> for \<open>head = 1\<close> and \<open>count = 1\<close>, so its logical order
  is \<open>[(7, 9)]\<close>.  The list that \<^verbatim>\<open>page\<close> writes for this trail starts reading at
  \<open>head\<close>, not at \<open>head - count\<close>: it is the never-written position 1, \<open>(0, 0)\<close>, and
  not the stored position.
\<close>

theorem page_trail_after_one_sample:
  "trN (tr (sampleTrails (\<lambda>n. 120)
        (parseFrames (\<lambda>n. 120) (pushBytes (arrive (frame_xy 7 9) init)))) ! 0) = 1 \<and>
   trHead (tr (sampleTrails (\<lambda>n. 120)
        (parseFrames (\<lambda>n. 120) (pushBytes (arrive (frame_xy 7 9) init)))) ! 0) = 1 \<and>
   idx (trX (tr (sampleTrails (\<lambda>n. 120)
        (parseFrames (\<lambda>n. 120) (pushBytes (arrive (frame_xy 7 9) init)))) ! 0)) 0 = 7 \<and>
   idx (trY (tr (sampleTrails (\<lambda>n. 120)
        (parseFrames (\<lambda>n. 120) (pushBytes (arrive (frame_xy 7 9) init)))) ! 0)) 0 = 9 \<and>
   stored (tr (sampleTrails (\<lambda>n. 120)
        (parseFrames (\<lambda>n. 120) (pushBytes (arrive (frame_xy 7 9) init)))) ! 0) = [(7, 9)] \<and>
   pageTrail (tr (sampleTrails (\<lambda>n. 120)
        (parseFrames (\<lambda>n. 120) (pushBytes (arrive (frame_xy 7 9) init)))) ! 0) = [(0, 0)]"
proof -
  define s1 where "s1 = parseFrames (\<lambda>n. 120) (pushBytes (arrive (frame_xy 7 9) init))"
  define r where "r = tr (sampleTrails (\<lambda>n. 120) s1) ! 0"
  have t1: "T s1 ! 0 = \<lparr>Tv = True, Tx = 7, Ty = 9, Tvz = 0, Tseen = 120\<rparr>"
    unfolding s1_def after_frame_7_9 by simp
  have tr1: "tr s1 = replicate 3 \<lparr>trX = replicate 100 0, trY = replicate 100 0,
                              trHead = 0, trN = 0, trLast = 0\<rparr>"
    unfolding s1_def after_frame_7_9 by (simp add: init_def)
  have "r = sampleSlot 120 (T s1 ! 0) (tr s1 ! 0)"
    unfolding r_def by (subst sampleTrails_slot0) (simp_all add: tr1)
  also have "\<dots> = \<lparr>trX = 7 # replicate 99 0, trY = 9 # replicate 99 0,
                     trHead = 1, trN = 1, trLast = 120\<rparr>"
    unfolding t1 tr1
    by (simp add: sampleSlot_def TRAIL_LEN_def c_rem_small replicate_100)
  finally have r: "r = \<lparr>trX = 7 # replicate 99 0, trY = 9 # replicate 99 0,
                        trHead = 1, trN = 1, trLast = 120\<rparr>" .
  have "trN r = 1 \<and> trHead r = 1 \<and> idx (trX r) 0 = 7 \<and> idx (trY r) 0 = 9 \<and>
        stored r = [(7, 9)] \<and> pageTrail r = [(0, 0)]"
    by (simp add: r idx_def pageTrail_def stored_def TRAIL_LEN_def c_rem_small Let_def)
  then show ?thesis unfolding r_def s1_def .
qed

end
